theory Spec2Isabelle
  imports Main
begin

section \<open>The rectangle factory\<close>

text \<open>
  \<^verbatim>\<open>function Rectangle(width, height)\<close> returns an object literal with the two
  fields and the method \<^verbatim>\<open>getArea\<close>, which multiplies the fields of its receiver.
  The number type is left open: the only operation used is the multiplication.
\<close>

record 'a rectangle =
  width :: 'a
  height :: 'a

definition Rectangle :: "'a \<Rightarrow> 'a \<Rightarrow> 'a rectangle" where
  "Rectangle w h = \<lparr>width = w, height = h\<rparr>"

definition getArea :: "('a::times) rectangle \<Rightarrow> 'a" where
  "getArea this = width this * height this"


section \<open>The selector builder: objects and store\<close>

text \<open>
  An \<^verbatim>\<open>ElementsSelector\<close> object. A field that was never assigned reads as
  \<^verbatim>\<open>undefined\<close>; this is \<open>None\<close>. The fragment values handed to the setters
  are strings. \<open>myClass\<close> and \<open>myPseudoClass\<close> hold a reference to an array object,
  which lives in the store.
\<close>

type_synonym ref = nat

record ElementsSelector =
  currOrder :: nat
  myElement :: "string option"
  myId :: "string option"
  myClass :: "ref option"
  myAttr :: "string option"
  myPseudoClass :: "ref option"
  myPseudoElement :: "string option"
  mySelector :: "string option"
  myCombinator :: "string option"
  mySelector2 :: "string option"

text \<open>
  The store: selector objects and arrays of strings, each kind with an allocation
  counter. The addresses below the counter are the allocated ones.
\<close>

record heap =
  objs :: "ref \<Rightarrow> ElementsSelector"
  nextObj :: nat
  arrs :: "ref \<Rightarrow> string list"
  nextArr :: nat

definition upd_obj :: "ref \<Rightarrow> (ElementsSelector \<Rightarrow> ElementsSelector) \<Rightarrow> heap \<Rightarrow> heap" where
  "upd_obj this f h = h\<lparr>objs := (objs h)(this := f (objs h this))\<rparr>"

text \<open>\<^verbatim>\<open>[]\<close>: a new, empty array.\<close>

definition newArray :: "heap \<Rightarrow> ref \<times> heap" where
  "newArray h = (nextArr h, h\<lparr>arrs := (arrs h)(nextArr h := []), nextArr := Suc (nextArr h)\<rparr>)"

text \<open>\<^verbatim>\<open>a.push(value)\<close>\<close>

definition push :: "ref \<Rightarrow> string \<Rightarrow> heap \<Rightarrow> heap" where
  "push a v h = h\<lparr>arrs := (arrs h)(a := arrs h a @ [v])\<rparr>"

text \<open>\<^verbatim>\<open>new ElementsSelector()\<close>: the constructor assigns \<^verbatim>\<open>currOrder = 0\<close> only.\<close>

definition new_ElementsSelector :: "heap \<Rightarrow> ref \<times> heap" where
  "new_ElementsSelector h =
     (nextObj h,
      h\<lparr>objs := (objs h)(nextObj h :=
           \<lparr>currOrder = 0, myElement = None, myId = None, myClass = None, myAttr = None,
            myPseudoClass = None, myPseudoElement = None, mySelector = None,
            myCombinator = None, mySelector2 = None\<rparr>),
        nextObj := Suc (nextObj h)\<rparr>)"

text \<open>The two messages of the \<^verbatim>\<open>Error\<close>s that the class throws.\<close>

datatype error = Error string

definition OrderViolation :: error where
  "OrderViolation = Error ''Selector parts should be arranged in the following order: element, id, class, attribute, pseudo-class, pseudo-element''"

definition DuplicateFragment :: error where
  "DuplicateFragment = Error ''Element, id and pseudo-element should not occur more then one time inside the selector''"

text \<open>
  Truthiness of a field that holds a string or \<^verbatim>\<open>undefined\<close>: \<^verbatim>\<open>undefined\<close> and
  the empty string are falsy. A field that holds an array reference is truthy as soon
  as it is assigned.
\<close>

fun truthy :: "string option \<Rightarrow> bool" where
  "truthy None = False"
| "truthy (Some s) = (s \<noteq> [])"

text \<open>A string field inside a template literal or a string concatenation.\<close>

fun str :: "string option \<Rightarrow> string" where
  "str None = ''undefined''"
| "str (Some s) = s"

text \<open>\<^verbatim>\<open>Array.prototype.join\<close> on an array of strings.\<close>

fun join :: "string \<Rightarrow> string list \<Rightarrow> string" where
  "join sep [] = []"
| "join sep [x] = x"
| "join sep (x # y # ys) = x @ sep @ join sep (y # ys)"


section \<open>The methods of \<^verbatim>\<open>ElementsSelector\<close>\<close>

text \<open>
  The keys of the table \<^verbatim>\<open>parts\<close> in \<^verbatim>\<open>checkOrder\<close>; the setters pass these six
  literals and nothing else.
\<close>

datatype part = Element | Id | Class | Attr | PseudoClass | PseudoElement

fun parts :: "part \<Rightarrow> nat" where
  "parts Element = 0"
| "parts Id = 1"
| "parts Class = 2"
| "parts Attr = 3"
| "parts PseudoClass = 4"
| "parts PseudoElement = 5"

text \<open>
  A method returns its value, or the error it threw, together with the store it leaves
  behind. \<^verbatim>\<open>checkOrder\<close> throws before it assigns.
\<close>

definition checkOrder :: "ref \<Rightarrow> part \<Rightarrow> heap \<Rightarrow> (error + unit) \<times> heap" where
  "checkOrder this p h =
     (if parts p < currOrder (objs h this) then (Inl OrderViolation, h)
      else (Inr (), upd_obj this (\<lambda>s. s\<lparr>currOrder := parts p\<rparr>) h))"

definition element :: "ref \<Rightarrow> string \<Rightarrow> heap \<Rightarrow> (error + ref) \<times> heap" where
  "element this v h =
     (case checkOrder this Element h of
        (Inl e, h1) \<Rightarrow> (Inl e, h1)
      | (Inr _, h1) \<Rightarrow>
          if truthy (myElement (objs h1 this)) then (Inl DuplicateFragment, h1)
          else (Inr this, upd_obj this (\<lambda>s. s\<lparr>myElement := Some v\<rparr>) h1))"

definition id_m :: "ref \<Rightarrow> string \<Rightarrow> heap \<Rightarrow> (error + ref) \<times> heap" where
  "id_m this v h =
     (case checkOrder this Id h of
        (Inl e, h1) \<Rightarrow> (Inl e, h1)
      | (Inr _, h1) \<Rightarrow>
          if truthy (myId (objs h1 this)) then (Inl DuplicateFragment, h1)
          else (Inr this, upd_obj this (\<lambda>s. s\<lparr>myId := Some v\<rparr>) h1))"

definition class_m :: "ref \<Rightarrow> string \<Rightarrow> heap \<Rightarrow> (error + ref) \<times> heap" where
  "class_m this v h =
     (case checkOrder this Class h of
        (Inl e, h1) \<Rightarrow> (Inl e, h1)
      | (Inr _, h1) \<Rightarrow>
          (case myClass (objs h1 this) of
             None \<Rightarrow>
               (case newArray h1 of (a, h2) \<Rightarrow>
                  (Inr this, push a v (upd_obj this (\<lambda>s. s\<lparr>myClass := Some a\<rparr>) h2)))
           | Some a \<Rightarrow> (Inr this, push a v h1)))"

definition attr :: "ref \<Rightarrow> string \<Rightarrow> heap \<Rightarrow> (error + ref) \<times> heap" where
  "attr this v h =
     (case checkOrder this Attr h of
        (Inl e, h1) \<Rightarrow> (Inl e, h1)
      | (Inr _, h1) \<Rightarrow> (Inr this, upd_obj this (\<lambda>s. s\<lparr>myAttr := Some v\<rparr>) h1))"

definition pseudoClass :: "ref \<Rightarrow> string \<Rightarrow> heap \<Rightarrow> (error + ref) \<times> heap" where
  "pseudoClass this v h =
     (case checkOrder this PseudoClass h of
        (Inl e, h1) \<Rightarrow> (Inl e, h1)
      | (Inr _, h1) \<Rightarrow>
          (case myPseudoClass (objs h1 this) of
             None \<Rightarrow>
               (case newArray h1 of (a, h2) \<Rightarrow>
                  (Inr this, push a v (upd_obj this (\<lambda>s. s\<lparr>myPseudoClass := Some a\<rparr>) h2)))
           | Some a \<Rightarrow> (Inr this, push a v h1)))"

definition pseudoElement :: "ref \<Rightarrow> string \<Rightarrow> heap \<Rightarrow> (error + ref) \<times> heap" where
  "pseudoElement this v h =
     (case checkOrder this PseudoElement h of
        (Inl e, h1) \<Rightarrow> (Inl e, h1)
      | (Inr _, h1) \<Rightarrow>
          if truthy (myPseudoElement (objs h1 this)) then (Inl DuplicateFragment, h1)
          else (Inr this, upd_obj this (\<lambda>s. s\<lparr>myPseudoElement := Some v\<rparr>) h1))"

text \<open>The method \<^verbatim>\<open>combine\<close> stores its three arguments; the facade passes strings.\<close>

definition combine :: "ref \<Rightarrow> string \<Rightarrow> string \<Rightarrow> string \<Rightarrow> heap \<Rightarrow> (error + ref) \<times> heap" where
  "combine this selector1 combinator selector2 h =
     (Inr this,
      upd_obj this (\<lambda>s. s\<lparr>mySelector := Some selector1, myCombinator := Some combinator,
                          mySelector2 := Some selector2\<rparr>) h)"

text \<open>
  \<^verbatim>\<open>stringify\<close>, like the other methods, returns its value together with the store it
  leaves behind. \<open>stringify this h\<close> is the string that the call returns.
\<close>

definition stringify_m :: "ref \<Rightarrow> heap \<Rightarrow> string \<times> heap" where
  "stringify_m this h =
     (let s = objs h this;
          result = []
      in
      if truthy (mySelector s) \<and> truthy (mySelector2 s)
      then (str (mySelector s) @ '' '' @ str (myCombinator s) @ '' '' @ str (mySelector2 s), h)
      else
        (let result = (if truthy (myElement s) then result @ str (myElement s) else result);
             result = (if truthy (myId s) then result @ ''#'' @ str (myId s) else result);
             result = (case myClass s of None \<Rightarrow> result
                       | Some a \<Rightarrow> result @ ''.'' @ join ''.'' (arrs h a));
             result = (if truthy (myAttr s) then result @ ''['' @ str (myAttr s) @ '']'' else result);
             result = (case myPseudoClass s of None \<Rightarrow> result
                       | Some a \<Rightarrow> result @ '':'' @ join '':'' (arrs h a));
             result = (if truthy (myPseudoElement s) then result @ ''::'' @ str (myPseudoElement s)
                       else result)
         in (result, h)))"

definition stringify :: "ref \<Rightarrow> heap \<Rightarrow> string" where
  "stringify this h = fst (stringify_m this h)"


section \<open>The facade \<^verbatim>\<open>cssSelectorBuilder\<close>\<close>

definition cssSelectorBuilder_element :: "string \<Rightarrow> heap \<Rightarrow> (error + ref) \<times> heap" where
  "cssSelectorBuilder_element v h = (case new_ElementsSelector h of (r, h1) \<Rightarrow> element r v h1)"

definition cssSelectorBuilder_id :: "string \<Rightarrow> heap \<Rightarrow> (error + ref) \<times> heap" where
  "cssSelectorBuilder_id v h = (case new_ElementsSelector h of (r, h1) \<Rightarrow> id_m r v h1)"

definition cssSelectorBuilder_class :: "string \<Rightarrow> heap \<Rightarrow> (error + ref) \<times> heap" where
  "cssSelectorBuilder_class v h = (case new_ElementsSelector h of (r, h1) \<Rightarrow> class_m r v h1)"

definition cssSelectorBuilder_attr :: "string \<Rightarrow> heap \<Rightarrow> (error + ref) \<times> heap" where
  "cssSelectorBuilder_attr v h = (case new_ElementsSelector h of (r, h1) \<Rightarrow> attr r v h1)"

definition cssSelectorBuilder_pseudoClass :: "string \<Rightarrow> heap \<Rightarrow> (error + ref) \<times> heap" where
  "cssSelectorBuilder_pseudoClass v h =
     (case new_ElementsSelector h of (r, h1) \<Rightarrow> pseudoClass r v h1)"

definition cssSelectorBuilder_pseudoElement :: "string \<Rightarrow> heap \<Rightarrow> (error + ref) \<times> heap" where
  "cssSelectorBuilder_pseudoElement v h =
     (case new_ElementsSelector h of (r, h1) \<Rightarrow> pseudoElement r v h1)"

definition cssSelectorBuilder_combine ::
  "ref \<Rightarrow> string \<Rightarrow> ref \<Rightarrow> heap \<Rightarrow> (error + ref) \<times> heap" where
  "cssSelectorBuilder_combine selector1 combinator selector2 h =
     (case stringify_m selector1 h of (selector1Str, h1) \<Rightarrow>
      case stringify_m selector2 h1 of (selector2Str, h2) \<Rightarrow>
      case new_ElementsSelector h2 of (r, h3) \<Rightarrow>
        combine r selector1Str combinator selector2Str h3)"


section \<open>Calls, chains and programs\<close>

text \<open>The six fragment setters, by the key each one passes to \<^verbatim>\<open>checkOrder\<close>.\<close>

fun setter :: "part \<Rightarrow> ref \<Rightarrow> string \<Rightarrow> heap \<Rightarrow> (error + ref) \<times> heap" where
  "setter Element = element"
| "setter Id = id_m"
| "setter Class = class_m"
| "setter Attr = attr"
| "setter PseudoClass = pseudoClass"
| "setter PseudoElement = pseudoElement"

text \<open>
  The singleton setters, and the string field that a setter assigns (and, for a
  singleton, tests).
\<close>

fun singleton :: "part \<Rightarrow> bool" where
  "singleton Element = True"
| "singleton Id = True"
| "singleton PseudoElement = True"
| "singleton _ = False"

fun field :: "part \<Rightarrow> ElementsSelector \<Rightarrow> string option" where
  "field Element s = myElement s"
| "field Id s = myId s"
| "field PseudoElement s = myPseudoElement s"
| "field Attr s = myAttr s"
| "field _ s = None"

fun field_update :: "part \<Rightarrow> string option \<Rightarrow> ElementsSelector \<Rightarrow> ElementsSelector" where
  "field_update Element x s = s\<lparr>myElement := x\<rparr>"
| "field_update Id x s = s\<lparr>myId := x\<rparr>"
| "field_update PseudoElement x s = s\<lparr>myPseudoElement := x\<rparr>"
| "field_update Attr x s = s\<lparr>myAttr := x\<rparr>"
| "field_update _ x s = s"

text \<open>
  A fluent chain \<^verbatim>\<open>b.m1(v1).m2(v2)...\<close>: each setter is called on what the one before
  returned, and the first error ends the chain.
\<close>

fun chain :: "(part \<times> string) list \<Rightarrow> ref \<Rightarrow> heap \<Rightarrow> (error + ref) \<times> heap" where
  "chain [] this h = (Inr this, h)"
| "chain ((p, v) # cs) this h =
     (case setter p this v h of
        (Inl e, h1) \<Rightarrow> (Inl e, h1)
      | (Inr r, h1) \<Rightarrow> chain cs r h1)"

text \<open>The methods of a builder, and what a call gives back.\<close>

datatype mcall = Setter part string | Combine string string string | Stringify

datatype outcome = Returned ref | Text string | Thrown error

fun outcome_of :: "error + ref \<Rightarrow> outcome" where
  "outcome_of (Inl e) = Thrown e"
| "outcome_of (Inr r) = Returned r"

fun invoke :: "mcall \<Rightarrow> ref \<Rightarrow> heap \<Rightarrow> outcome \<times> heap" where
  "invoke (Setter p v) this h = (case setter p this v h of (x, h1) \<Rightarrow> (outcome_of x, h1))"
| "invoke (Combine a c b) this h = (case combine this a c b h of (x, h1) \<Rightarrow> (outcome_of x, h1))"
| "invoke Stringify this h = (case stringify_m this h of (x, h1) \<Rightarrow> (Text x, h1))"

text \<open>The same method called \<open>n\<close> times in a row on one builder: the outcomes, in order.\<close>

fun repeatedly :: "nat \<Rightarrow> mcall \<Rightarrow> ref \<Rightarrow> heap \<Rightarrow> outcome list \<times> heap" where
  "repeatedly 0 m this h = ([], h)"
| "repeatedly (Suc n) m this h =
     (case invoke m this h of (x, h1) \<Rightarrow>
        (case repeatedly n m this h1 of (xs, h2) \<Rightarrow> (x # xs, h2)))"

text \<open>
  Separate statements \<^verbatim>\<open>b.m1(...); b.m2(...); ...\<close> on one builder, where the caller
  catches every error and goes on: the store after all of them.
\<close>

fun attempts :: "mcall list \<Rightarrow> ref \<Rightarrow> heap \<Rightarrow> heap" where
  "attempts [] this h = h"
| "attempts (m # ms) this h = attempts ms this (snd (invoke m this h))"

text \<open>The highest rank among the setters called so far; 0 when none was.\<close>

fun highest :: "mcall list \<Rightarrow> nat" where
  "highest [] = 0"
| "highest (Setter p v # ms) = max (parts p) (highest ms)"
| "highest (m # ms) = highest ms"

text \<open>The calls of the setter with the key \<open>p\<close>.\<close>

fun same_setter :: "part \<Rightarrow> mcall \<Rightarrow> bool" where
  "same_setter p (Setter q v) = (q = p)"
| "same_setter p m = False"

text \<open>Method calls on several builders, one after the other.\<close>

fun mutations :: "(ref \<times> mcall) list \<Rightarrow> heap \<Rightarrow> heap" where
  "mutations [] h = h"
| "mutations ((r, m) # ms) h = mutations ms (snd (invoke m r h))"

text \<open>The six facade methods that start a builder with one fragment.\<close>

fun facade :: "part \<Rightarrow> string \<Rightarrow> heap \<Rightarrow> (error + ref) \<times> heap" where
  "facade Element = cssSelectorBuilder_element"
| "facade Id = cssSelectorBuilder_id"
| "facade Class = cssSelectorBuilder_class"
| "facade Attr = cssSelectorBuilder_attr"
| "facade PseudoClass = cssSelectorBuilder_pseudoClass"
| "facade PseudoElement = cssSelectorBuilder_pseudoElement"

text \<open>
  A client program is a sequence of facade invocations and of method calls on builders
  that exist. It starts in the empty store.
\<close>

datatype op = Facade part string | FacadeCombine ref string ref | Call ref mcall

fun exec :: "op \<Rightarrow> heap \<Rightarrow> heap" where
  "exec (Facade p v) h = snd (facade p v h)"
| "exec (FacadeCombine a c b) h = snd (cssSelectorBuilder_combine a c b h)"
| "exec (Call r m) h = snd (invoke m r h)"

fun allocated :: "op \<Rightarrow> heap \<Rightarrow> bool" where
  "allocated (Facade p v) h = True"
| "allocated (FacadeCombine a c b) h = (a < nextObj h \<and> b < nextObj h)"
| "allocated (Call r m) h = (r < nextObj h)"

definition blank :: ElementsSelector where
  "blank = \<lparr>currOrder = 0, myElement = None, myId = None, myClass = None, myAttr = None,
            myPseudoClass = None, myPseudoElement = None, mySelector = None,
            myCombinator = None, mySelector2 = None\<rparr>"

definition heap0 :: heap where
  "heap0 = \<lparr>objs = (\<lambda>_. blank), nextObj = 0, arrs = (\<lambda>_. []), nextArr = 0\<rparr>"

inductive reachable :: "heap \<Rightarrow> bool" where
  start: "reachable heap0"
| step: "reachable h \<Longrightarrow> allocated x h \<Longrightarrow> reachable (exec x h)"

text \<open>
  A run of a client program from a given store, and whether each of its steps uses
  builders that exist when it is taken.
\<close>

fun run :: "op list \<Rightarrow> heap \<Rightarrow> heap" where
  "run [] h = h"
| "run (x # xs) h = run xs (exec x h)"

fun runs :: "op list \<Rightarrow> heap \<Rightarrow> bool" where
  "runs [] h = True"
| "runs (x # xs) h = (allocated x h \<and> runs xs (exec x h))"

text \<open>The steps that are a fragment-setter or a \<^verbatim>\<open>combine\<close> call on the builder \<open>r\<close>.\<close>

fun mutates :: "ref \<Rightarrow> op \<Rightarrow> bool" where
  "mutates r (Call r' (Setter p v)) = (r' = r)"
| "mutates r (Call r' (Combine a c b)) = (r' = r)"
| "mutates r x = False"

text \<open>
  What can be observed of a builder: its fields, with the contents of the arrays they
  refer to.
\<close>

definition view :: "ref \<Rightarrow> heap \<Rightarrow> ElementsSelector \<times> string list option \<times> string list option" where
  "view r h =
     (objs h r, map_option (arrs h) (myClass (objs h r)),
      map_option (arrs h) (myPseudoClass (objs h r)))"

text \<open>
  The invariant of the store behind the independence of builders: every array a builder
  refers to is allocated, and no array is referred to twice.
\<close>

definition owns :: "heap \<Rightarrow> ref \<Rightarrow> ref \<Rightarrow> bool" where
  "owns h r a = (myClass (objs h r) = Some a \<or> myPseudoClass (objs h r) = Some a)"

definition wf :: "heap \<Rightarrow> bool" where
  "wf h =
     ((\<forall>r a. r < nextObj h \<longrightarrow> owns h r a \<longrightarrow> a < nextArr h) \<and>
      (\<forall>r r' a. r < nextObj h \<longrightarrow> r' < nextObj h \<longrightarrow> owns h r a \<longrightarrow> owns h r' a \<longrightarrow> r = r') \<and>
      (\<forall>r. r < nextObj h \<longrightarrow> myClass (objs h r) = None \<or> myClass (objs h r) \<noteq> myPseudoClass (objs h r)))"


section \<open>The fixed concatenation order\<close>

text \<open>
  The fragments of a simple selector as the specification lists them: optional texts
  and ordered sequences. A successful setter call puts its value into its fragment:
  the singletons and the attribute keep the last value, the sequences grow at the end.
\<close>

record fragments =
  the_element :: "string option"
  the_id :: "string option"
  the_classes :: "string list"
  the_attribute :: "string option"
  the_pseudoClasses :: "string list"
  the_pseudoElement :: "string option"

definition no_fragments :: fragments where
  "no_fragments = \<lparr>the_element = None, the_id = None, the_classes = [], the_attribute = None,
                    the_pseudoClasses = [], the_pseudoElement = None\<rparr>"

fun put :: "fragments \<Rightarrow> part \<times> string \<Rightarrow> fragments" where
  "put f (Element, v) = f\<lparr>the_element := Some v\<rparr>"
| "put f (Id, v) = f\<lparr>the_id := Some v\<rparr>"
| "put f (Class, v) = f\<lparr>the_classes := the_classes f @ [v]\<rparr>"
| "put f (Attr, v) = f\<lparr>the_attribute := Some v\<rparr>"
| "put f (PseudoClass, v) = f\<lparr>the_pseudoClasses := the_pseudoClasses f @ [v]\<rparr>"
| "put f (PseudoElement, v) = f\<lparr>the_pseudoElement := Some v\<rparr>"

definition fragments_of :: "(part \<times> string) list \<Rightarrow> fragments" where
  "fragments_of cs = foldl put no_fragments cs"

text \<open>
  The concatenation in the words of the specification: a fragment that is set
  contributes its text with its prefix, an absent one contributes nothing.
\<close>

definition fixed_order :: "fragments \<Rightarrow> string" where
  "fixed_order f =
     (case the_element f of None \<Rightarrow> [] | Some e \<Rightarrow> e) @
     (case the_id f of None \<Rightarrow> [] | Some i \<Rightarrow> ''#'' @ i) @
     (if the_classes f = [] then [] else ''.'' @ join ''.'' (the_classes f)) @
     (case the_attribute f of None \<Rightarrow> [] | Some a \<Rightarrow> ''['' @ a @ '']'') @
     (if the_pseudoClasses f = [] then [] else '':'' @ join '':'' (the_pseudoClasses f)) @
     (case the_pseudoElement f of None \<Rightarrow> [] | Some e \<Rightarrow> ''::'' @ e)"

text \<open>
  The same concatenation where an id, an attribute or a pseudo-element that is set to
  the empty string contributes nothing either.
\<close>

definition fixed_order_nonempty :: "fragments \<Rightarrow> string" where
  "fixed_order_nonempty f =
     (case the_element f of None \<Rightarrow> [] | Some e \<Rightarrow> e) @
     (case the_id f of None \<Rightarrow> [] | Some i \<Rightarrow> if i = [] then [] else ''#'' @ i) @
     (if the_classes f = [] then [] else ''.'' @ join ''.'' (the_classes f)) @
     (case the_attribute f of None \<Rightarrow> [] | Some a \<Rightarrow> if a = [] then [] else ''['' @ a @ '']'') @
     (if the_pseudoClasses f = [] then [] else '':'' @ join '':'' (the_pseudoClasses f)) @
     (case the_pseudoElement f of None \<Rightarrow> [] | Some e \<Rightarrow> if e = [] then [] else ''::'' @ e)"


text \<open>
  A sequence of setter calls respects the rank order when the ranks never go down, and
  it sets no singleton twice when element, id and pseudo-element occur at most once.
\<close>

definition rank_order :: "(part \<times> string) list \<Rightarrow> bool" where
  "rank_order cs = sorted (map (\<lambda>c. parts (fst c)) cs)"

definition singletons_once :: "(part \<times> string) list \<Rightarrow> bool" where
  "singletons_once cs = distinct (filter singleton (map fst cs))"

text \<open>The fragments a builder holds in the store.\<close>

definition fragments_in :: "ref \<Rightarrow> heap \<Rightarrow> fragments" where
  "fragments_in b h =
     \<lparr>the_element = myElement (objs h b),
      the_id = myId (objs h b),
      the_classes = (case myClass (objs h b) of None \<Rightarrow> [] | Some a \<Rightarrow> arrs h a),
      the_attribute = myAttr (objs h b),
      the_pseudoClasses = (case myPseudoClass (objs h b) of None \<Rightarrow> [] | Some a \<Rightarrow> arrs h a),
      the_pseudoElement = myPseudoElement (objs h b)\<rparr>"

text \<open>
  A simple selector: no combination is stored, and its arrays, where it has them, are
  allocated, not empty and two different ones.
\<close>

definition simple :: "ref \<Rightarrow> heap \<Rightarrow> bool" where
  "simple b h =
     (mySelector (objs h b) = None \<and>
      (case myClass (objs h b) of None \<Rightarrow> True
       | Some a \<Rightarrow> a < nextArr h \<and> arrs h a \<noteq> [] \<and> myPseudoClass (objs h b) \<noteq> Some a) \<and>
      (case myPseudoClass (objs h b) of None \<Rightarrow> True
       | Some a \<Rightarrow> a < nextArr h \<and> arrs h a \<noteq> []))"


section \<open>Example builders\<close>

text \<open>\<^verbatim>\<open>cssSelectorBuilder.element('div').id('main')\<close> in the empty store.\<close>

definition div_main :: heap where
  "div_main = snd (id_m 0 ''main'' (snd (cssSelectorBuilder_element ''div'' heap0)))"

text \<open>\<^verbatim>\<open>cssSelectorBuilder.element('')\<close> in the empty store.\<close>

definition empty_element :: heap where
  "empty_element = snd (cssSelectorBuilder_element [] heap0)"

text \<open>Two builders, \<^verbatim>\<open>element('div')\<close> and \<^verbatim>\<open>element('p')\<close>, at the addresses 0 and 1.\<close>

definition div_and_p :: heap where
  "div_and_p = snd (cssSelectorBuilder_element ''p'' (snd (cssSelectorBuilder_element ''div'' heap0)))"

text \<open>Two builders, \<^verbatim>\<open>element('')\<close> and \<^verbatim>\<open>element('b')\<close>, at the addresses 0 and 1.\<close>

definition empty_and_b :: heap where
  "empty_and_b = snd (cssSelectorBuilder_element ''b'' (snd (cssSelectorBuilder_element [] heap0)))"

text \<open>The calls \<^verbatim>\<open>element('div')\<close>, \<^verbatim>\<open>id('main')\<close>, \<^verbatim>\<open>class('x')\<close>.\<close>

definition div_main_x :: "mcall list" where
  "div_main_x = [Setter Element ''div'', Setter Id ''main'', Setter Class ''x'']"


text \<open>\<^verbatim>\<open>combine(element('div'), '+', element('p'))\<close>, at the address 2.\<close>

definition div_plus_p :: heap where
  "div_plus_p = snd (cssSelectorBuilder_combine 0 ''+'' 1 div_and_p)"

text \<open>Calls on the two input builders after the combination.\<close>

definition later_calls :: "(ref \<times> mcall) list" where
  "later_calls = [(0, Setter Id ''main''), (1, Setter Class ''x''), (0, Setter Class ''y'')]"


text \<open>\<^verbatim>\<open>cssSelectorBuilder.element('').id('x')\<close> in the empty store.\<close>

definition empty_x :: heap where
  "empty_x = snd (id_m 0 ''x'' empty_element)"

text \<open>A read and \<^verbatim>\<open>id('x')\<close>, called after \<^verbatim>\<open>element('')\<close>.\<close>

definition then_id :: "mcall list" where
  "then_id = [Stringify, Setter Id ''x'']"

text \<open>
  A program around the builder at the address 0: it is read, the other builder gets a
  class, two more builders are made, one of them from the first, and it is read again.
\<close>

definition busy :: "op list" where
  "busy = [Call 0 Stringify, Call 1 (Setter Class ''x''), Facade Id ''main'',
           FacadeCombine 0 ''+'' 1, Call 0 Stringify]"

text \<open>The calls \<^verbatim>\<open>id('main')\<close>, \<^verbatim>\<open>class('container')\<close>, \<^verbatim>\<open>class('editable')\<close>.\<close>

definition main_container_editable :: "(part \<times> string) list" where
  "main_container_editable = [(Id, ''main''), (Class, ''container''), (Class, ''editable'')]"


section \<open>The rectangle\<close>

text \<open>
  C7. For all numbers \<open>w\<close> and \<open>h\<close>, the object made by \<open>Rectangle w h\<close> has the width
  \<open>w\<close> and the height \<open>h\<close>, and its method \<open>getArea\<close> returns \<open>w * h\<close>.
\<close>

theorem Rectangle_fields_area:
  "width (Rectangle w h) = w \<and> height (Rectangle w h) = h \<and> getArea (Rectangle w h) = w * h"
  by (simp add: Rectangle_def getArea_def)


section \<open>The setters\<close>

text \<open>No statement of \<^verbatim>\<open>stringify\<close> assigns to the store.\<close>

lemma stringify_m_store: "snd (stringify_m this h) = h"
  by (simp add: stringify_m_def Let_def)

lemma stringify_m_eq [simp]: "stringify_m this h = (stringify this h, h)"
  by (simp add: stringify_def prod_eq_iff stringify_m_store)

lemma stringify_unfold:
  "stringify this h =
     (let s = objs h this in
      if truthy (mySelector s) \<and> truthy (mySelector2 s)
      then str (mySelector s) @ '' '' @ str (myCombinator s) @ '' '' @ str (mySelector2 s)
      else
        (let result = [];
             result = (if truthy (myElement s) then result @ str (myElement s) else result);
             result = (if truthy (myId s) then result @ ''#'' @ str (myId s) else result);
             result = (case myClass s of None \<Rightarrow> result
                       | Some a \<Rightarrow> result @ ''.'' @ join ''.'' (arrs h a));
             result = (if truthy (myAttr s) then result @ ''['' @ str (myAttr s) @ '']'' else result);
             result = (case myPseudoClass s of None \<Rightarrow> result
                       | Some a \<Rightarrow> result @ '':'' @ join '':'' (arrs h a));
             result = (if truthy (myPseudoElement s) then result @ ''::'' @ str (myPseudoElement s)
                       else result)
         in result))"
  unfolding stringify_def stringify_m_def Let_def
  by (simp only: if_distrib [of fst] fst_conv)

lemma cssSelectorBuilder_combine_unfold:
  "cssSelectorBuilder_combine selector1 combinator selector2 h =
     (case new_ElementsSelector h of (r, h1) \<Rightarrow>
        combine r (stringify selector1 h) combinator (stringify selector2 h) h1)"
  by (simp add: cssSelectorBuilder_combine_def)

lemmas eval_defs = cssSelectorBuilder_element_def cssSelectorBuilder_id_def
  cssSelectorBuilder_class_def cssSelectorBuilder_attr_def cssSelectorBuilder_pseudoClass_def
  cssSelectorBuilder_pseudoElement_def cssSelectorBuilder_combine_unfold
  new_ElementsSelector_def element_def id_m_def class_m_def attr_def pseudoClass_def
  pseudoElement_def combine_def checkOrder_def upd_obj_def newArray_def push_def heap0_def
  blank_def stringify_unfold

lemma errors_differ: "OrderViolation \<noteq> DuplicateFragment"
  by (simp add: OrderViolation_def DuplicateFragment_def)

text \<open>Every setter in one equation: the order check, the occupied check, the assignment.\<close>

lemma setter_unfold:
  "setter p this v h =
     (if parts p < currOrder (objs h this) then (Inl OrderViolation, h)
      else if singleton p \<and> truthy (field p (objs h this))
        then (Inl DuplicateFragment, upd_obj this (\<lambda>s. s\<lparr>currOrder := parts p\<rparr>) h)
      else case p of
          Class \<Rightarrow> (case myClass (objs h this) of
              None \<Rightarrow> (Inr this, push (nextArr h) v (upd_obj this (\<lambda>s. s\<lparr>myClass := Some (nextArr h)\<rparr>)
                          (snd (newArray (upd_obj this (\<lambda>s. s\<lparr>currOrder := parts p\<rparr>) h)))))
            | Some a \<Rightarrow> (Inr this, push a v (upd_obj this (\<lambda>s. s\<lparr>currOrder := parts p\<rparr>) h)))
        | PseudoClass \<Rightarrow> (case myPseudoClass (objs h this) of
              None \<Rightarrow> (Inr this, push (nextArr h) v (upd_obj this (\<lambda>s. s\<lparr>myPseudoClass := Some (nextArr h)\<rparr>)
                          (snd (newArray (upd_obj this (\<lambda>s. s\<lparr>currOrder := parts p\<rparr>) h)))))
            | Some a \<Rightarrow> (Inr this, push a v (upd_obj this (\<lambda>s. s\<lparr>currOrder := parts p\<rparr>) h)))
        | _ \<Rightarrow> (Inr this, upd_obj this (\<lambda>s. field_update p (Some v) (s\<lparr>currOrder := parts p\<rparr>)) h))"
  by (cases p)
     (auto simp: element_def id_m_def class_m_def attr_def pseudoClass_def pseudoElement_def
        checkOrder_def upd_obj_def newArray_def push_def split: option.splits)

lemma singleton_setter:
  assumes "singleton p"
  shows "setter p this v h =
     (if parts p < currOrder (objs h this) then (Inl OrderViolation, h)
      else if truthy (field p (objs h this))
        then (Inl DuplicateFragment, upd_obj this (\<lambda>s. s\<lparr>currOrder := parts p\<rparr>) h)
      else (Inr this, upd_obj this (\<lambda>s. field_update p (Some v) (s\<lparr>currOrder := parts p\<rparr>)) h))"
  using assms by (cases p) (simp_all add: setter_unfold del: setter.simps)

lemma currOrder_field_update [simp]: "currOrder (field_update p x s) = currOrder s"
  by (cases p) simp_all

lemma field_field_update: "singleton p \<Longrightarrow> field p (field_update p x s) = x"
  by (cases p) simp_all


lemma upd_obj_same: "f (objs h r) = objs h r \<Longrightarrow> upd_obj r f h = h"
  by (simp add: upd_obj_def)


section \<open>The order check comes first\<close>

text \<open>
  C9. When a call of a singleton setter breaks both rules (the fragment is occupied and
  a setter of a higher rank was used), the error raised is the ordering error, and the
  builder is left as it was: \<^verbatim>\<open>checkOrder\<close> runs before the occupied check.
\<close>

theorem order_error_before_duplicate:
  assumes "singleton p"
    and "truthy (field p (objs h this))"
    and "parts p < currOrder (objs h this)"
  shows "setter p this v h = (Inl OrderViolation, h) \<and> OrderViolation \<noteq> DuplicateFragment"
  using assms by (simp add: singleton_setter errors_differ del: setter.simps)

theorem order_error_before_duplicate_witness:
  "singleton Element \<and> truthy (field Element (objs div_main 0)) \<and>
   parts Element < currOrder (objs div_main 0) \<and>
   setter Element 0 ''span'' div_main = (Inl OrderViolation, div_main)"
  using order_error_before_duplicate [of Element div_main 0 "''span''"]
  by (simp add: div_main_def eval_defs)


section \<open>A singleton set twice\<close>

text \<open>
  C3, as amended. Calling a singleton setter (element, id, pseudoElement) a second time,
  directly after a call of it that stored a non-empty string, raises
  \<open>DuplicateFragment\<close> and leaves the store as it was. In general the setter raises
  \<open>DuplicateFragment\<close> on every builder whose value for that fragment is a non-empty
  string and on which no setter of a higher rank was used.
\<close>

theorem duplicate_raised:
  assumes "singleton p"
  shows "(v1 \<noteq> [] \<longrightarrow> setter p this v1 h = (Inr r, h1) \<longrightarrow>
            setter p r v h1 = (Inl DuplicateFragment, h1)) \<and>
         (truthy (field p (objs h this)) \<longrightarrow> currOrder (objs h this) \<le> parts p \<longrightarrow>
            setter p this v h =
              (Inl DuplicateFragment, upd_obj this (\<lambda>s. s\<lparr>currOrder := parts p\<rparr>) h))"
proof -
  have "setter p r v h1 = (Inl DuplicateFragment, h1)"
    if "v1 \<noteq> []" and "setter p this v1 h = (Inr r, h1)"
  proof -
    from that(2) assms have r: "r = this"
      and h1: "h1 = upd_obj this (\<lambda>s. field_update p (Some v1) (s\<lparr>currOrder := parts p\<rparr>)) h"
      by (auto simp: singleton_setter simp del: setter.simps split: if_splits)
    have c: "currOrder (objs h1 this) = parts p" and f: "field p (objs h1 this) = Some v1"
      using assms by (simp_all add: h1 upd_obj_def field_field_update)
    have "upd_obj this (\<lambda>s. s\<lparr>currOrder := parts p\<rparr>) h1 = h1"
      by (rule upd_obj_same) (simp add: c [symmetric])
    with c f that(1) assms show ?thesis
      by (simp add: r singleton_setter del: setter.simps)
  qed
  moreover have "setter p this v h =
      (Inl DuplicateFragment, upd_obj this (\<lambda>s. s\<lparr>currOrder := parts p\<rparr>) h)"
    if "truthy (field p (objs h this))" and "currOrder (objs h this) \<le> parts p"
    using that assms by (simp add: singleton_setter del: setter.simps)
  ultimately show ?thesis by blast
qed

theorem duplicate_raised_witness:
  "singleton Id \<and> ''main'' \<noteq> [] \<and>
   setter Id 0 ''main'' (snd (cssSelectorBuilder_element ''div'' heap0)) = (Inr 0, div_main) \<and>
   truthy (field Id (objs div_main 0)) \<and> currOrder (objs div_main 0) \<le> parts Id \<and>
   setter Id 0 ''b'' div_main = (Inl DuplicateFragment, div_main)"
proof -
  have s: "singleton Id" by simp
  have first: "setter Id 0 ''main'' (snd (cssSelectorBuilder_element ''div'' heap0)) = (Inr 0, div_main)"
    by (simp add: div_main_def eval_defs)
  have stored: "truthy (field Id (objs div_main 0))" "currOrder (objs div_main 0) \<le> parts Id"
    by (simp_all add: div_main_def eval_defs)
  from duplicate_raised [OF s, of "''main''" 0 "snd (cssSelectorBuilder_element ''div'' heap0)"
      0 div_main "''b''"] first
  have "setter Id 0 ''b'' div_main = (Inl DuplicateFragment, div_main)"
    by simp
  with s first stored show ?thesis by simp
qed

text \<open>
  The claim as stated fails twice: \<^verbatim>\<open>element('').element('a')\<close> returns the builder,
  and \<^verbatim>\<open>element('div').id('main').element('span')\<close> raises the ordering error.
\<close>

theorem second_call_counterexample:
  "fst (element 0 ''a'' empty_element) = Inr 0 \<and>
   fst (element 0 ''span'' div_main) = Inl OrderViolation \<and>
   Inl OrderViolation \<noteq> (Inl DuplicateFragment :: error + ref)"
  by (simp add: div_main_def empty_element_def eval_defs errors_differ)


section \<open>The ordering rule\<close>

lemma currOrder_setter:
  "currOrder (objs (snd (setter p this v h)) this) = max (currOrder (objs h this)) (parts p)"
  by (cases p)
     (auto simp: setter_unfold upd_obj_def push_def newArray_def max_def
           simp del: setter.simps split: option.splits)

lemma currOrder_invoke:
  "currOrder (objs (snd (invoke m this h)) this) =
     (case m of Setter p v \<Rightarrow> max (currOrder (objs h this)) (parts p)
      | _ \<Rightarrow> currOrder (objs h this))"
proof (cases m)
  case (Setter p v)
  have "snd (invoke (Setter p v) this h) = snd (setter p this v h)"
    by (simp del: setter.simps split: prod.splits)
  with Setter show ?thesis by (simp add: currOrder_setter del: setter.simps)
next
  case (Combine a c b)
  then show ?thesis by (simp add: combine_def upd_obj_def)
next
  case Stringify
  then show ?thesis by simp
qed

text \<open>\<open>currOrder\<close> is the highest rank used: every call, failed or not, keeps it so.\<close>

lemma currOrder_attempts:
  "currOrder (objs (attempts ms this h) this) = max (currOrder (objs h this)) (highest ms)"
proof (induction ms arbitrary: h)
  case Nil
  then show ?case by simp
next
  case (Cons m ms)
  show ?case
    by (cases m) (simp_all add: Cons.IH currOrder_invoke max.assoc del: invoke.simps)
qed

lemma order_violation_iff:
  "fst (setter p this v h) = Inl OrderViolation \<longleftrightarrow> parts p < currOrder (objs h this)"
  by (cases p)
     (auto simp: setter_unfold errors_differ errors_differ [symmetric]
           simp del: setter.simps split: option.splits)

text \<open>
  C2. Take a builder as the constructor made it and any sequence \<open>ms\<close> of method calls
  on it, failed ones included. A setter whose rank is below the highest rank used in
  \<open>ms\<close> raises \<open>OrderViolation\<close>; a setter whose rank is equal or higher does not.
\<close>

theorem order_violation_iff_lower_rank:
  assumes "new_ElementsSelector h = (b, h0)"
  shows "(parts p < highest ms \<longrightarrow> fst (setter p b v (attempts ms b h0)) = Inl OrderViolation) \<and>
         (highest ms \<le> parts p \<longrightarrow> fst (setter p b v (attempts ms b h0)) \<noteq> Inl OrderViolation)"
proof -
  from assms have "currOrder (objs h0 b) = 0"
    by (auto simp: new_ElementsSelector_def)
  then have "currOrder (objs (attempts ms b h0) b) = highest ms"
    by (simp add: currOrder_attempts)
  then show ?thesis
    by (simp add: order_violation_iff del: setter.simps)
qed

theorem order_violation_iff_lower_rank_witness:
  "new_ElementsSelector heap0 = (0, snd (new_ElementsSelector heap0)) \<and>
   parts Element < highest div_main_x \<and>
   fst (setter Element 0 ''span'' (attempts div_main_x 0 (snd (new_ElementsSelector heap0))))
     = Inl OrderViolation \<and>
   highest div_main_x \<le> parts Class \<and>
   fst (setter Class 0 ''y'' (attempts div_main_x 0 (snd (new_ElementsSelector heap0))))
     \<noteq> Inl OrderViolation"
proof -
  have new: "new_ElementsSelector heap0 = (0, snd (new_ElementsSelector heap0))"
    by (simp add: new_ElementsSelector_def heap0_def)
  have low: "parts Element < highest div_main_x" and high: "highest div_main_x \<le> parts Class"
    by (simp_all add: div_main_x_def)
  from order_violation_iff_lower_rank [OF new, of Element div_main_x "''span''"]
    order_violation_iff_lower_rank [OF new, of Class div_main_x "''y''"] new low high
  show ?thesis by blast
qed


section \<open>Combined selectors\<close>

lemma stringify_combined:
  assumes "mySelector (objs h r) = Some a" and "mySelector2 (objs h r) = Some b"
    and "myCombinator (objs h r) = Some c"
    and "a \<noteq> []" and "b \<noteq> []"
  shows "stringify r h = a @ '' '' @ c @ '' '' @ b"
  using assms by (simp add: stringify_unfold)

lemma facade_combine_result:
  "cssSelectorBuilder_combine A c B h =
     (Inr (nextObj h),
      h\<lparr>objs := (objs h)(nextObj h := blank\<lparr>mySelector := Some (stringify A h),
            myCombinator := Some c, mySelector2 := Some (stringify B h)\<rparr>),
        nextObj := Suc (nextObj h)\<rparr>)"
  by (simp add: cssSelectorBuilder_combine_unfold new_ElementsSelector_def combine_def upd_obj_def
        blank_def Let_def)

text \<open>
  C4, as amended. For two builders \<open>A\<close> and \<open>B\<close> that both stringify to a non-empty
  string and any combinator \<open>c\<close>, the builder that the facade's \<open>combine\<close> returns is a
  new one and stringifies to the two strings joined by \<open>c\<close> with one space on each side.
\<close>

theorem combine_joins_nonempty:
  assumes "cssSelectorBuilder_combine A c B h = (x, h1)"
    and "stringify A h \<noteq> []" and "stringify B h \<noteq> []"
  shows "x = Inr (nextObj h) \<and>
         stringify (nextObj h) h1 = stringify A h @ '' '' @ c @ '' '' @ stringify B h"
proof -
  from assms(1) have x: "x = Inr (nextObj h)"
    and h1: "objs h1 (nextObj h) = blank\<lparr>mySelector := Some (stringify A h),
            myCombinator := Some c, mySelector2 := Some (stringify B h)\<rparr>"
    by (auto simp: facade_combine_result)
  have "stringify (nextObj h) h1 = stringify A h @ '' '' @ c @ '' '' @ stringify B h"
    by (rule stringify_combined) (simp_all add: h1 assms(2,3))
  with x show ?thesis by simp
qed

theorem combine_joins_nonempty_witness:
  "stringify 0 div_and_p \<noteq> [] \<and> stringify 1 div_and_p \<noteq> [] \<and>
   fst (cssSelectorBuilder_combine 0 ''+'' 1 div_and_p) = Inr 2 \<and>
   stringify 2 (snd (cssSelectorBuilder_combine 0 ''+'' 1 div_and_p)) = ''div + p''"
proof -
  have a: "stringify 0 div_and_p = ''div''" and b: "stringify (Suc 0) div_and_p = ''p''"
    and n: "nextObj div_and_p = 2"
    by (simp_all add: div_and_p_def eval_defs)
  from combine_joins_nonempty [of 0 "''+''" 1 div_and_p
      "fst (cssSelectorBuilder_combine 0 ''+'' 1 div_and_p)"
      "snd (cssSelectorBuilder_combine 0 ''+'' 1 div_and_p)"]
  show ?thesis by (simp add: a b n)
qed

text \<open>
  The claim as stated fails where a sub-selector stringifies to the empty string:
  \<^verbatim>\<open>combine(element(''), '+', element('b'))\<close> stringifies to the empty string.
\<close>

theorem combine_empty_counterexample:
  "stringify 2 (snd (cssSelectorBuilder_combine 0 ''+'' 1 empty_and_b)) = [] \<and>
   stringify 0 empty_and_b @ '' '' @ ''+'' @ '' '' @ stringify 1 empty_and_b = '' + b''"
  by (simp add: empty_and_b_def eval_defs)


section \<open>Mutation after the combination\<close>

lemma invoke_setter_snd: "snd (invoke (Setter p v) r h) = snd (setter p r v h)"
  by (simp del: setter.simps split: prod.splits)

lemma objs_setter_other:
  "r' \<noteq> r \<Longrightarrow> objs (snd (setter p r v h)) r' = objs h r'"
  by (cases p)
     (auto simp: setter_unfold upd_obj_def push_def newArray_def
           simp del: setter.simps split: option.splits)

lemma objs_invoke_other:
  "r' \<noteq> r \<Longrightarrow> objs (snd (invoke m r h)) r' = objs h r'"
proof (cases m)
  case (Setter p v)
  then show "r' \<noteq> r \<Longrightarrow> ?thesis"
    by (simp add: invoke_setter_snd objs_setter_other del: invoke.simps setter.simps)
next
  case (Combine a c b)
  then show "r' \<noteq> r \<Longrightarrow> ?thesis" by (simp add: combine_def upd_obj_def)
next
  case Stringify
  then show ?thesis by simp
qed

lemma nextObj_setter: "nextObj (snd (setter p r v h)) = nextObj h"
  by (cases p)
     (auto simp: setter_unfold upd_obj_def push_def newArray_def
           simp del: setter.simps split: option.splits)

lemma nextObj_invoke: "nextObj (snd (invoke m r h)) = nextObj h"
proof (cases m)
  case (Setter p v)
  then show ?thesis by (simp add: invoke_setter_snd nextObj_setter del: invoke.simps setter.simps)
next
  case (Combine a c b)
  then show ?thesis by (simp add: combine_def upd_obj_def)
next
  case Stringify
  then show ?thesis by simp
qed

lemma objs_mutations_other:
  "r \<notin> fst ` set ms \<Longrightarrow> objs (mutations ms h) r = objs h r"
proof (induction ms arbitrary: h)
  case Nil
  then show ?case by simp
next
  case (Cons x ms)
  obtain r' m where x: "x = (r', m)" by (cases x)
  with Cons.prems have "r \<noteq> r'" and "r \<notin> fst ` set ms" by auto
  then show ?case
    by (simp add: x Cons.IH objs_invoke_other del: invoke.simps)
qed

lemma stringify_no_arrays:
  assumes "objs h' r = objs h r"
    and "myClass (objs h r) = None" and "myPseudoClass (objs h r) = None"
  shows "stringify r h' = stringify r h"
  using assms by (simp add: stringify_unfold Let_def)

text \<open>
  C10. The facade's \<open>combine\<close> stringifies its two inputs when it is called and stores
  the two strings in the new builder. Whatever methods are called on the two input
  builders afterwards, the combined builder stringifies as before.
\<close>

theorem combine_keeps_strings:
  assumes "cssSelectorBuilder_combine A c B h = (x, h1)"
    and "A < nextObj h" and "B < nextObj h"
    and "fst ` set ms \<subseteq> {A, B}"
  shows "x = Inr (nextObj h) \<and>
         mySelector (objs h1 (nextObj h)) = Some (stringify A h) \<and>
         mySelector2 (objs h1 (nextObj h)) = Some (stringify B h) \<and>
         stringify (nextObj h) (mutations ms h1) = stringify (nextObj h) h1"
proof -
  from assms(1) have x: "x = Inr (nextObj h)"
    and h1: "objs h1 (nextObj h) = blank\<lparr>mySelector := Some (stringify A h),
            myCombinator := Some c, mySelector2 := Some (stringify B h)\<rparr>"
    by (auto simp: facade_combine_result)
  from assms(2-4) have "nextObj h \<notin> fst ` set ms" by auto
  then have same: "objs (mutations ms h1) (nextObj h) = objs h1 (nextObj h)"
    by (rule objs_mutations_other)
  have "stringify (nextObj h) (mutations ms h1) = stringify (nextObj h) h1"
    using same by (rule stringify_no_arrays) (simp_all add: h1 blank_def)
  with x h1 show ?thesis by simp
qed

theorem combine_keeps_strings_witness:
  "0 < nextObj div_and_p \<and> 1 < nextObj div_and_p \<and> fst ` set later_calls \<subseteq> {0, 1} \<and>
   stringify 0 (mutations later_calls div_plus_p) = ''div#main.y'' \<and>
   stringify 2 (mutations later_calls div_plus_p) = ''div + p''"
proof -
  have n: "nextObj div_and_p = 2"
    by (simp add: div_and_p_def eval_defs)
  have s: "fst ` set later_calls \<subseteq> {0, 1}"
    by (simp add: later_calls_def)
  have a: "stringify 0 (mutations later_calls div_plus_p) = ''div#main.y''"
    by (simp add: later_calls_def div_plus_p_def div_and_p_def eval_defs)
  have b: "stringify 2 div_plus_p = ''div + p''"
    by (simp add: div_plus_p_def div_and_p_def eval_defs)
  have c: "cssSelectorBuilder_combine 0 ''+'' 1 div_and_p =
             (fst (cssSelectorBuilder_combine 0 ''+'' 1 div_and_p), div_plus_p)"
    by (simp add: div_plus_p_def)
  have "stringify (nextObj div_and_p) (mutations later_calls div_plus_p) =
          stringify (nextObj div_and_p) div_plus_p"
    using combine_keeps_strings [OF c _ _ s] by (simp add: n)
  with n s a b show ?thesis by simp
qed


section \<open>Independent builders\<close>

lemma stringify_view: "view r h' = view r h \<Longrightarrow> stringify r h' = stringify r h"
  by (auto simp: view_def stringify_unfold Let_def split: option.splits)

lemma wf_heap0: "wf heap0"
  by (simp add: wf_def heap0_def owns_def blank_def)

lemma wf_new: "wf h \<Longrightarrow> wf (snd (new_ElementsSelector h))"
  unfolding wf_def owns_def new_ElementsSelector_def
  by (auto simp: less_Suc_eq)

lemma view_new: "r < nextObj h \<Longrightarrow> view r (snd (new_ElementsSelector h)) = view r h"
  by (simp add: view_def new_ElementsSelector_def)

lemma nextObj_new: "nextObj (snd (new_ElementsSelector h)) = Suc (nextObj h)"
  and fst_new: "fst (new_ElementsSelector h) = nextObj h"
  by (simp_all add: new_ElementsSelector_def)


lemma wfD_allocated: "wf h \<Longrightarrow> r < nextObj h \<Longrightarrow> owns h r a \<Longrightarrow> a < nextArr h"
  unfolding wf_def by blast

lemma wfD_unique:
  "wf h \<Longrightarrow> r < nextObj h \<Longrightarrow> r' < nextObj h \<Longrightarrow> owns h r a \<Longrightarrow> owns h r' a \<Longrightarrow> r = r'"
  unfolding wf_def by blast

lemma wf_same_owners:
  assumes "wf h"
    and "nextObj h' = nextObj h" and "nextArr h' = nextArr h"
    and "\<And>r. myClass (objs h' r) = myClass (objs h r)"
    and "\<And>r. myPseudoClass (objs h' r) = myPseudoClass (objs h r)"
  shows "wf h'"
  using assms unfolding wf_def owns_def by simp

lemma wf_alloc_class:
  assumes "wf h" and "r < nextObj h" and "myClass (objs h r) = None"
    and "nextObj h' = nextObj h" and "nextArr h' = Suc (nextArr h)"
    and "\<And>r'. myClass (objs h' r') = (if r' = r then Some (nextArr h) else myClass (objs h r'))"
    and "\<And>r'. myPseudoClass (objs h' r') = myPseudoClass (objs h r')"
  shows "wf h'"
proof -
  have own: "owns h' r' a \<longleftrightarrow> (r' = r \<and> a = nextArr h) \<or> owns h r' a" for r' a
    using assms(3) by (auto simp: owns_def assms(6,7))
  have old: "r' < nextObj h \<Longrightarrow> owns h r' a \<Longrightarrow> a < nextArr h" for r' a
    using assms(1) by (rule wfD_allocated)
  have 1: "\<forall>r' a. r' < nextObj h' \<longrightarrow> owns h' r' a \<longrightarrow> a < nextArr h'"
    using old by (auto simp: own assms(4,5) less_Suc_eq)
  have 2: "\<forall>r1 r2 a. r1 < nextObj h' \<longrightarrow> r2 < nextObj h' \<longrightarrow> owns h' r1 a \<longrightarrow> owns h' r2 a \<longrightarrow> r1 = r2"
    using old wfD_unique [OF assms(1)] by (fastforce simp: own assms(4))
  have 3: "\<forall>r'. r' < nextObj h' \<longrightarrow>
             myClass (objs h' r') = None \<or> myClass (objs h' r') \<noteq> myPseudoClass (objs h' r')"
  proof (intro allI impI)
    fix r' assume r': "r' < nextObj h'"
    show "myClass (objs h' r') = None \<or> myClass (objs h' r') \<noteq> myPseudoClass (objs h' r')"
    proof (cases "r' = r")
      case True
      have "myPseudoClass (objs h r) \<noteq> Some (nextArr h)"
        using old [OF assms(2), of "nextArr h"] by (auto simp: owns_def)
      with True show ?thesis by (simp add: assms(6,7))
    next
      case False
      with r' assms(1) show ?thesis
        unfolding wf_def by (simp add: assms(4,6,7))
    qed
  qed
  from 1 2 3 show ?thesis unfolding wf_def by blast
qed

lemma wf_alloc_pseudoClass:
  assumes "wf h" and "r < nextObj h" and "myPseudoClass (objs h r) = None"
    and "nextObj h' = nextObj h" and "nextArr h' = Suc (nextArr h)"
    and "\<And>r'. myPseudoClass (objs h' r') = (if r' = r then Some (nextArr h) else myPseudoClass (objs h r'))"
    and "\<And>r'. myClass (objs h' r') = myClass (objs h r')"
  shows "wf h'"
proof -
  have own: "owns h' r' a \<longleftrightarrow> (r' = r \<and> a = nextArr h) \<or> owns h r' a" for r' a
    using assms(3) by (auto simp: owns_def assms(6,7))
  have old: "r' < nextObj h \<Longrightarrow> owns h r' a \<Longrightarrow> a < nextArr h" for r' a
    using assms(1) by (rule wfD_allocated)
  have 1: "\<forall>r' a. r' < nextObj h' \<longrightarrow> owns h' r' a \<longrightarrow> a < nextArr h'"
    using old by (auto simp: own assms(4,5) less_Suc_eq)
  have 2: "\<forall>r1 r2 a. r1 < nextObj h' \<longrightarrow> r2 < nextObj h' \<longrightarrow> owns h' r1 a \<longrightarrow> owns h' r2 a \<longrightarrow> r1 = r2"
    using old wfD_unique [OF assms(1)] by (fastforce simp: own assms(4))
  have 3: "\<forall>r'. r' < nextObj h' \<longrightarrow>
             myClass (objs h' r') = None \<or> myClass (objs h' r') \<noteq> myPseudoClass (objs h' r')"
  proof (intro allI impI)
    fix r' assume r': "r' < nextObj h'"
    show "myClass (objs h' r') = None \<or> myClass (objs h' r') \<noteq> myPseudoClass (objs h' r')"
    proof (cases "r' = r")
      case True
      have "myClass (objs h r) \<noteq> Some (nextArr h)"
        using old [OF assms(2), of "nextArr h"] by (auto simp: owns_def)
      with True show ?thesis by (simp add: assms(6,7))
    next
      case False
      with r' assms(1) show ?thesis
        unfolding wf_def by (simp add: assms(4,6,7))
    qed
  qed
  from 1 2 3 show ?thesis unfolding wf_def by blast
qed

lemma wf_setter:
  assumes "wf h" and "r < nextObj h"
  shows "wf (snd (setter p r v h))"
proof (cases "parts p < currOrder (objs h r) \<or> (singleton p \<and> truthy (field p (objs h r)))")
  case True
  then show ?thesis
    by (auto simp: setter_unfold upd_obj_def simp del: setter.simps
             intro!: wf_same_owners [OF assms(1)])
next
  case False
  show ?thesis
  proof (cases p)
    case Class
    show ?thesis
    proof (cases "myClass (objs h r)")
      case None
      with False Class show ?thesis
        by (auto simp: setter_unfold upd_obj_def push_def newArray_def simp del: setter.simps
              intro!: wf_alloc_class [OF assms])
    next
      case (Some a)
      with False Class show ?thesis
        by (auto simp: setter_unfold upd_obj_def push_def simp del: setter.simps
              intro!: wf_same_owners [OF assms(1)])
    qed
  next
    case PseudoClass
    show ?thesis
    proof (cases "myPseudoClass (objs h r)")
      case None
      with False PseudoClass show ?thesis
        by (auto simp: setter_unfold upd_obj_def push_def newArray_def simp del: setter.simps
              intro!: wf_alloc_pseudoClass [OF assms])
    next
      case (Some a)
      with False PseudoClass show ?thesis
        by (auto simp: setter_unfold upd_obj_def push_def simp del: setter.simps
              intro!: wf_same_owners [OF assms(1)])
    qed
  qed (use False in \<open>auto simp: setter_unfold upd_obj_def simp del: setter.simps
              intro!: wf_same_owners [OF assms(1)]\<close>)
qed


lemma wf_invoke:
  assumes "wf h" and "r < nextObj h"
  shows "wf (snd (invoke m r h))"
proof (cases m)
  case (Setter p v)
  with wf_setter [OF assms] show ?thesis
    by (simp add: invoke_setter_snd del: invoke.simps setter.simps)
next
  case (Combine a c b)
  then show ?thesis
    by (auto simp: combine_def upd_obj_def intro!: wf_same_owners [OF assms(1)])
next
  case Stringify
  with assms(1) show ?thesis by simp
qed

lemma facade_unfold: "facade p v h = setter p (nextObj h) v (snd (new_ElementsSelector h))"
  by (cases p) (simp_all add: eval_defs)

lemma facade_returns: "fst (facade p v h) = Inr (nextObj h)"
  by (cases p) (simp_all add: eval_defs)

lemma wf_exec:
  assumes "wf h" and "allocated x h"
  shows "wf (exec x h)"
proof (cases x)
  case (Facade p v)
  have "wf (snd (setter p (nextObj h) v (snd (new_ElementsSelector h))))"
    by (rule wf_setter) (simp_all add: wf_new assms(1) nextObj_new)
  with Facade show ?thesis by (simp add: facade_unfold del: setter.simps)
next
  case (FacadeCombine a c b)
  have "cssSelectorBuilder_combine a c b h =
          combine (nextObj h) (stringify a h) c (stringify b h) (snd (new_ElementsSelector h))"
    by (simp add: cssSelectorBuilder_combine_unfold new_ElementsSelector_def Let_def)
  moreover have "wf (snd (combine (nextObj h) (stringify a h) c (stringify b h)
                      (snd (new_ElementsSelector h))))"
    by (auto simp: combine_def upd_obj_def intro!: wf_same_owners [OF wf_new [OF assms(1)]])
  ultimately show ?thesis using FacadeCombine by simp
next
  case (Call r m)
  with assms show ?thesis by (simp add: wf_invoke del: invoke.simps)
qed

lemma reachable_wf: "reachable h \<Longrightarrow> wf h"
  by (induction rule: reachable.induct) (simp_all add: wf_heap0 wf_exec del: exec.simps)

text \<open>A call on one builder leaves the arrays of the others alone.\<close>

lemma arrs_setter_other:
  assumes "\<not> owns h r a" and "a \<noteq> nextArr h"
  shows "arrs (snd (setter p r v h)) a = arrs h a"
  using assms
  by (cases p)
     (auto simp: setter_unfold upd_obj_def push_def newArray_def owns_def
           simp del: setter.simps split: option.splits)

lemma arrs_invoke_other:
  assumes "\<not> owns h r a" and "a \<noteq> nextArr h"
  shows "arrs (snd (invoke m r h)) a = arrs h a"
proof (cases m)
  case (Setter p v)
  with arrs_setter_other [OF assms] show ?thesis
    by (simp add: invoke_setter_snd del: invoke.simps setter.simps)
next
  case (Combine a c b)
  then show ?thesis by (simp add: combine_def upd_obj_def)
next
  case Stringify
  then show ?thesis by simp
qed

lemma view_invoke_other:
  assumes "wf h" and "r < nextObj h" and "r' < nextObj h" and "r \<noteq> r'"
  shows "view r' (snd (invoke m r h)) = view r' h"
proof -
  have o: "objs (snd (invoke m r h)) r' = objs h r'"
    using assms(4) by (simp add: objs_invoke_other del: invoke.simps)
  have a: "arrs (snd (invoke m r h)) a = arrs h a" if "owns h r' a" for a
  proof (rule arrs_invoke_other)
    show "\<not> owns h r a"
      using wfD_unique [OF assms(1,2,3) _ that] assms(4) by blast
    show "a \<noteq> nextArr h"
      using wfD_allocated [OF assms(1,3) that] by simp
  qed
  have c: "map_option (arrs (snd (invoke m r h))) (myClass (objs h r')) =
           map_option (arrs h) (myClass (objs h r'))"
    by (cases "myClass (objs h r')") (simp_all add: a owns_def del: invoke.simps)
  have p: "map_option (arrs (snd (invoke m r h))) (myPseudoClass (objs h r')) =
           map_option (arrs h) (myPseudoClass (objs h r'))"
    by (cases "myPseudoClass (objs h r')") (simp_all add: a owns_def del: invoke.simps)
  show ?thesis
    unfolding view_def o c p ..
qed


lemma facade_frame:
  assumes "wf h" and "r' < nextObj h"
  shows "view r' (snd (facade p v h)) = view r' h"
proof -
  let ?h0 = "snd (new_ElementsSelector h)"
  have "view r' (snd (invoke (Setter p v) (nextObj h) ?h0)) = view r' ?h0"
    using assms by (intro view_invoke_other wf_new) (simp_all add: nextObj_new)
  then show ?thesis
    using assms(2) by (simp add: invoke_setter_snd facade_unfold view_new del: invoke.simps setter.simps)
qed

lemma facade_combine_frame:
  assumes "r' < nextObj h"
  shows "view r' (snd (cssSelectorBuilder_combine a c b h)) = view r' h"
  using assms by (simp add: facade_combine_result view_def)

lemma nextObj_facade: "nextObj (snd (facade p v h)) = Suc (nextObj h)"
  by (simp add: facade_unfold nextObj_setter nextObj_new del: setter.simps)

text \<open>
  C5. In every store a client program can reach, a facade invocation returns a builder
  at a new address (\<open>nextObj h\<close>, above every builder that exists), and it leaves the
  observable state and the \<open>stringify\<close> result of every existing builder \<open>r'\<close>
  unchanged; so does every method call on another builder \<open>r\<close>.
\<close>

theorem builders_independent:
  assumes "reachable h" and "r' < nextObj h"
  shows "(fst (facade p v h) = Inr (nextObj h) \<and>
          nextObj (snd (facade p v h)) = Suc (nextObj h) \<and>
          view r' (snd (facade p v h)) = view r' h \<and>
          stringify r' (snd (facade p v h)) = stringify r' h) \<and>
         (fst (cssSelectorBuilder_combine a c b h) = Inr (nextObj h) \<and>
          nextObj (snd (cssSelectorBuilder_combine a c b h)) = Suc (nextObj h) \<and>
          view r' (snd (cssSelectorBuilder_combine a c b h)) = view r' h \<and>
          stringify r' (snd (cssSelectorBuilder_combine a c b h)) = stringify r' h) \<and>
         (r < nextObj h \<longrightarrow> r \<noteq> r' \<longrightarrow>
          view r' (snd (invoke m r h)) = view r' h \<and>
          stringify r' (snd (invoke m r h)) = stringify r' h)"
proof -
  from assms(1) have wf: "wf h" by (rule reachable_wf)
  have f: "view r' (snd (facade p v h)) = view r' h"
    using wf assms(2) by (rule facade_frame)
  have c: "view r' (snd (cssSelectorBuilder_combine a c b h)) = view r' h"
    using assms(2) by (rule facade_combine_frame)
  have i: "view r' (snd (invoke m r h)) = view r' h" if "r < nextObj h" and "r \<noteq> r'"
    using wf that(1) assms(2) that(2) by (rule view_invoke_other)
  note sf = stringify_view [OF f] and sc = stringify_view [OF c]
  have si: "stringify r' (snd (invoke m r h)) = stringify r' h" if "r < nextObj h" and "r \<noteq> r'"
    using i [OF that] by (rule stringify_view)
  have nc: "fst (cssSelectorBuilder_combine a c b h) = Inr (nextObj h)"
    "nextObj (snd (cssSelectorBuilder_combine a c b h)) = Suc (nextObj h)"
    by (simp_all add: facade_combine_result)
  show ?thesis
    using f c i sf sc si nc facade_returns [of p v h] nextObj_facade [of p v h] by blast
qed

lemma reachable_div_and_p: "reachable div_and_p"
proof -
  have "div_and_p = exec (Facade Element ''p'') (exec (Facade Element ''div'') heap0)"
    by (simp add: div_and_p_def)
  moreover have "reachable (exec (Facade Element ''p'') (exec (Facade Element ''div'') heap0))"
    by (intro reachable.step reachable.start) simp_all
  ultimately show ?thesis by simp
qed

theorem builders_independent_witness:
  "reachable div_and_p \<and> 0 < nextObj div_and_p \<and> 1 < nextObj div_and_p \<and>
   fst (facade Id ''main'' div_and_p) = Inr 2 \<and>
   stringify 0 (snd (facade Id ''main'' div_and_p)) = ''div'' \<and>
   stringify 0 (snd (invoke (Setter Class ''x'') 1 div_and_p)) = ''div'' \<and>
   stringify 1 (snd (invoke (Setter Class ''x'') 1 div_and_p)) = ''p.x''"
proof -
  have n: "nextObj div_and_p = 2" and s: "stringify 0 div_and_p = ''div''"
    by (simp_all add: div_and_p_def eval_defs)
  have z: "0 < nextObj div_and_p" by (simp add: n)
  have t: "stringify 1 (snd (invoke (Setter Class ''x'') 1 div_and_p)) = ''p.x''"
    by (simp add: div_and_p_def eval_defs)
  have o: "1 < nextObj div_and_p" "(1::nat) \<noteq> 0" by (simp_all add: n)
  note b = builders_independent [OF reachable_div_and_p z, of Id "''main''" 0 "''+''" 0 1
      "Setter Class ''x''"]
  from b have "fst (facade Id ''main'' div_and_p) = Inr (nextObj div_and_p)"
    and "stringify 0 (snd (facade Id ''main'' div_and_p)) = stringify 0 div_and_p"
    by blast+
  moreover from b o
  have "stringify 0 (snd (invoke (Setter Class ''x'') 1 div_and_p)) = stringify 0 div_and_p"
    by blast
  ultimately show ?thesis
    using reachable_div_and_p t z o by (simp only: n s)
qed


section \<open>Reading a builder\<close>

lemma nextObj_exec: "nextObj h \<le> nextObj (exec x h)"
proof (cases x)
  case (Facade p v)
  then show ?thesis by (simp add: nextObj_facade del: facade.simps)
next
  case (FacadeCombine a c b)
  then show ?thesis by (simp add: facade_combine_result)
next
  case (Call r m)
  then show ?thesis by (simp add: nextObj_invoke del: invoke.simps)
qed

lemma view_exec_other:
  assumes "wf h" and "r < nextObj h" and "allocated x h" and "\<not> mutates r x"
  shows "view r (exec x h) = view r h"
proof (cases x)
  case (Facade p v)
  with facade_frame [OF assms(1,2)] show ?thesis by simp
next
  case (FacadeCombine a c b)
  with facade_combine_frame [OF assms(2)] show ?thesis by simp
next
  case (Call r' m)
  show ?thesis
  proof (cases "r' = r")
    case True
    with assms(4) Call have "m = Stringify" by (cases m) simp_all
    with Call show ?thesis by simp
  next
    case False
    from assms(3) Call have "r' < nextObj h" by simp
    from view_invoke_other [OF assms(1) this assms(2) False] Call
    show ?thesis by simp
  qed
qed

lemma view_run_other:
  assumes "reachable h" and "r < nextObj h" and "runs xs h" and "\<forall>x \<in> set xs. \<not> mutates r x"
  shows "view r (run xs h) = view r h"
  using assms
proof (induction xs arbitrary: h)
  case Nil
  then show ?case by simp
next
  case (Cons x xs)
  from Cons.prems have a: "allocated x h" and rest: "runs xs (exec x h)"
    and nx: "\<not> mutates r x" and nxs: "\<forall>x \<in> set xs. \<not> mutates r x"
    by simp_all
  have reach: "reachable (exec x h)"
    using Cons.prems(1) a by (rule reachable.step)
  have alloc: "r < nextObj (exec x h)"
    using Cons.prems(2) nextObj_exec [of h x] by simp
  have "view r (exec x h) = view r h"
    using reachable_wf [OF Cons.prems(1)] Cons.prems(2) a nx by (rule view_exec_other)
  with Cons.IH [OF reach alloc rest nxs] show ?case by simp
qed

lemma repeatedly_Stringify:
  "repeatedly n Stringify this h = (replicate n (Text (stringify this h)), h)"
  by (induction n) simp_all

text \<open>
  C6. \<open>stringify\<close> leaves the store, and so every field of the builder, as it found
  it, and any number of calls in a row return the same string. The string stays the
  same through every run of a client program that calls no fragment setter and no
  \<^verbatim>\<open>combine\<close> on the builder, whatever it does besides: reading this builder, calling
  methods on other builders, invoking the facade.
\<close>

theorem stringify_reads_only:
  "stringify_m this h = (stringify this h, h) \<and>
   repeatedly n Stringify this h = (replicate n (Text (stringify this h)), h) \<and>
   (reachable h \<longrightarrow> this < nextObj h \<longrightarrow> runs xs h \<longrightarrow> (\<forall>x \<in> set xs. \<not> mutates this x) \<longrightarrow>
      stringify this (run xs h) = stringify this h)"
proof -
  have "stringify_m this h = (fst (stringify_m this h), h)"
    using stringify_m_store [of this h] by (simp add: prod_eq_iff del: stringify_m_eq)
  then have store: "stringify_m this h = (stringify this h, h)"
    by (simp only: stringify_def)
  have "stringify this (run xs h) = stringify this h"
    if "reachable h" and "this < nextObj h" and "runs xs h" and "\<forall>x \<in> set xs. \<not> mutates this x"
    using view_run_other [OF that] by (rule stringify_view)
  with store repeatedly_Stringify show ?thesis by blast
qed

theorem stringify_reads_only_witness:
  "reachable div_and_p \<and> 0 < nextObj div_and_p \<and> runs busy div_and_p \<and>
   list_all (\<lambda>x. \<not> mutates 0 x) busy \<and>
   stringify 0 div_and_p = ''div'' \<and> stringify 0 (run busy div_and_p) = ''div'' \<and>
   stringify 1 (run busy div_and_p) = ''p.x''"
proof -
  have n: "0 < nextObj div_and_p" and s: "stringify 0 div_and_p = ''div''"
    by (simp_all add: div_and_p_def eval_defs)
  have r: "runs busy div_and_p"
    by (simp add: busy_def div_and_p_def eval_defs)
  have m: "\<forall>x \<in> set busy. \<not> mutates 0 x"
    by (simp add: busy_def)
  have o: "stringify 1 (run busy div_and_p) = ''p.x''"
    by (simp add: busy_def div_and_p_def eval_defs)
  from stringify_reads_only [of 0 div_and_p 0 busy] reachable_div_and_p n r m
  have "stringify 0 (run busy div_and_p) = stringify 0 div_and_p" by blast
  with reachable_div_and_p n r m s o show ?thesis by (simp add: list_all_iff)
qed


section \<open>The string of a simple selector\<close>

lemma stringify_simple:
  assumes "simple b h"
  shows "stringify b h = fixed_order_nonempty (fragments_in b h)"
  using assms
  by (cases "myElement (objs h b)"; cases "myId (objs h b)"; cases "myAttr (objs h b)";
      cases "myPseudoElement (objs h b)"; cases "myClass (objs h b)";
      cases "myPseudoClass (objs h b)")
     (simp_all add: simple_def stringify_unfold fixed_order_nonempty_def fragments_in_def Let_def)

lemma setter_simple:
  assumes "simple b h" and "setter p b v h = (Inr r, h1)"
  shows "r = b \<and> simple b h1 \<and> fragments_in b h1 = put (fragments_in b h) (p, v)"
proof (cases p)
  case Element
  with assms show ?thesis
    by (auto simp: setter_unfold upd_obj_def simple_def fragments_in_def
             simp del: setter.simps split: if_splits option.splits)
next
  case Id
  with assms show ?thesis
    by (auto simp: setter_unfold upd_obj_def simple_def fragments_in_def
             simp del: setter.simps split: if_splits option.splits)
next
  case Class
  with assms show ?thesis
    by (auto simp: setter_unfold upd_obj_def push_def newArray_def simple_def fragments_in_def
             simp del: setter.simps split: if_splits option.splits)
next
  case Attr
  with assms show ?thesis
    by (auto simp: setter_unfold upd_obj_def simple_def fragments_in_def
             simp del: setter.simps split: if_splits option.splits)
next
  case PseudoClass
  with assms show ?thesis
    by (auto simp: setter_unfold upd_obj_def push_def newArray_def simple_def fragments_in_def
             simp del: setter.simps split: if_splits option.splits)
next
  case PseudoElement
  with assms show ?thesis
    by (auto simp: setter_unfold upd_obj_def simple_def fragments_in_def
             simp del: setter.simps split: if_splits option.splits)
qed

lemma chain_simple:
  assumes "simple b h" and "chain cs b h = (Inr r, h1)"
  shows "r = b \<and> simple b h1 \<and> fragments_in b h1 = foldl put (fragments_in b h) cs"
  using assms
proof (induction cs arbitrary: h)
  case Nil
  then show ?case by simp
next
  case (Cons c cs)
  obtain p v where c: "c = (p, v)" by (cases c)
  from Cons.prems(2) obtain r' h' where
    s: "setter p b v h = (Inr r', h')" and rest: "chain cs r' h' = (Inr r, h1)"
    by (auto simp: c simp del: setter.simps split: prod.splits sum.splits)
  from setter_simple [OF Cons.prems(1) s]
  have r': "r' = b" and simple: "simple b h'"
    and frag: "fragments_in b h' = put (fragments_in b h) (p, v)"
    by simp_all
  from Cons.IH [OF simple] rest r' frag show ?case
    by (simp add: c)
qed

lemma new_simple:
  assumes "new_ElementsSelector h = (b, h0)"
  shows "simple b h0 \<and> fragments_in b h0 = no_fragments"
  using assms
  by (auto simp: new_ElementsSelector_def simple_def fragments_in_def no_fragments_def)


lemma setter_succeeds:
  assumes "currOrder (objs h b) \<le> parts p"
    and "singleton p \<longrightarrow> \<not> truthy (field p (objs h b))"
  shows "fst (setter p b v h) = Inr b"
  using assms
  by (cases p) (auto simp: setter_unfold simp del: setter.simps split: option.splits)

lemma field_setter_other:
  assumes "singleton q" and "q \<noteq> p"
  shows "field q (objs (snd (setter p b v h)) b) = field q (objs h b)"
  using assms
  by (cases p; cases q)
     (auto simp: setter_unfold upd_obj_def push_def newArray_def
           simp del: setter.simps split: option.splits)

lemma chain_succeeds:
  assumes "sorted (map (\<lambda>c. parts (fst c)) cs)"
    and "distinct (filter singleton (map fst cs))"
    and "\<forall>c \<in> set cs. currOrder (objs h b) \<le> parts (fst c)"
    and "\<forall>c \<in> set cs. singleton (fst c) \<longrightarrow> \<not> truthy (field (fst c) (objs h b))"
  shows "\<exists>h1. chain cs b h = (Inr b, h1)"
  using assms
proof (induction cs arbitrary: h)
  case Nil
  then show ?case by simp
next
  case (Cons c cs)
  obtain p v where c: "c = (p, v)" by (cases c)
  have ok: "fst (setter p b v h) = Inr b"
    using Cons.prems(3,4) by (intro setter_succeeds) (simp_all add: c)
  then obtain h' where s: "setter p b v h = (Inr b, h')"
    by (metis prod.collapse)
  then have h': "snd (setter p b v h) = h'" by simp
  have curr: "currOrder (objs h' b) = parts p"
    using Cons.prems(3) currOrder_setter [of p b v h] by (simp add: h' c max_def del: setter.simps)
  have 1: "sorted (map (\<lambda>c. parts (fst c)) cs)"
    using Cons.prems(1) by simp
  have 2: "distinct (filter singleton (map fst cs))"
    using Cons.prems(2) by (simp split: if_splits)
  have 3: "\<forall>c' \<in> set cs. currOrder (objs h' b) \<le> parts (fst c')"
    using Cons.prems(1) by (simp add: curr c)
  have 4: "\<forall>c' \<in> set cs. singleton (fst c') \<longrightarrow> \<not> truthy (field (fst c') (objs h' b))"
  proof (intro ballI impI)
    fix c' assume c': "c' \<in> set cs" and single: "singleton (fst c')"
    have "fst c' \<noteq> p"
    proof
      assume "fst c' = p"
      with single c' Cons.prems(2) show False by (force simp: c)
    qed
    with single have "field (fst c') (objs h' b) = field (fst c') (objs h b)"
      using field_setter_other [of "fst c'" p b v h] by (simp add: h' del: setter.simps)
    with Cons.prems(4) c' single show "\<not> truthy (field (fst c') (objs h' b))"
      by simp
  qed
  from Cons.IH [OF 1 2 3 4] obtain h1 where "chain cs b h' = (Inr b, h1)" ..
  with s show ?case by (simp add: c del: setter.simps)
qed

text \<open>
  C1, as amended. Take a builder as the constructor made it and a chain \<open>cs\<close> of
  setter calls on it. If \<open>cs\<close> respects the rank order and sets no singleton twice,
  the chain returns the builder. Whenever the chain returns, \<open>stringify\<close> gives the
  concatenation, in the fixed order, of the element, \<open>#\<close> and the id, the classes
  joined by and led by \<open>.\<close>, the attribute in brackets, the pseudo-classes joined by
  and led by \<open>:\<close>, and \<open>::\<close> and the pseudo-element; an absent fragment
  contributes nothing, and neither does an id, an attribute or a pseudo-element that
  was set to the empty string.
\<close>

theorem stringify_fixed_order:
  assumes "new_ElementsSelector h = (b, h0)"
  shows "(rank_order cs \<and> singletons_once cs \<longrightarrow> (\<exists>h1. chain cs b h0 = (Inr b, h1))) \<and>
         (chain cs b h0 = (Inr r, h1) \<longrightarrow>
            r = b \<and> stringify b h1 = fixed_order_nonempty (fragments_of cs))"
proof -
  from assms have fresh: "objs h0 b = blank"
    by (auto simp: new_ElementsSelector_def blank_def)
  have "\<exists>h1. chain cs b h0 = (Inr b, h1)" if "rank_order cs" and "singletons_once cs"
  proof (rule chain_succeeds)
    show "\<forall>c \<in> set cs. singleton (fst c) \<longrightarrow> \<not> truthy (field (fst c) (objs h0 b))"
    proof (intro ballI impI)
      fix c :: "part \<times> string"
      show "\<not> truthy (field (fst c) (objs h0 b))"
        by (cases "fst c") (simp_all add: fresh blank_def)
    qed
  qed (use that in \<open>simp_all add: rank_order_def singletons_once_def fresh blank_def\<close>)
  moreover have "r = b \<and> stringify b h1 = fixed_order_nonempty (fragments_of cs)"
    if "chain cs b h0 = (Inr r, h1)"
  proof -
    from new_simple [OF assms] have s: "simple b h0" and f: "fragments_in b h0 = no_fragments"
      by simp_all
    from chain_simple [OF s that]
    have "r = b" and "simple b h1" and "fragments_in b h1 = fragments_of cs"
      by (simp_all add: f fragments_of_def)
    then show ?thesis by (simp add: stringify_simple)
  qed
  ultimately show ?thesis by blast
qed


theorem stringify_fixed_order_witness:
  "new_ElementsSelector heap0 = (0, snd (new_ElementsSelector heap0)) \<and>
   rank_order main_container_editable \<and> singletons_once main_container_editable \<and>
   fst (chain main_container_editable 0 (snd (new_ElementsSelector heap0))) = Inr 0 \<and>
   stringify 0 (snd (chain main_container_editable 0 (snd (new_ElementsSelector heap0))))
     = ''#main.container.editable''"
proof -
  have new: "new_ElementsSelector heap0 = (0, snd (new_ElementsSelector heap0))"
    by (simp add: new_ElementsSelector_def heap0_def)
  have valid: "rank_order main_container_editable" "singletons_once main_container_editable"
    by (simp_all add: rank_order_def singletons_once_def main_container_editable_def)
  have fo: "fixed_order_nonempty (fragments_of main_container_editable) = ''#main.container.editable''"
    by (simp add: fixed_order_nonempty_def fragments_of_def no_fragments_def
          main_container_editable_def)
  from stringify_fixed_order [OF new, of main_container_editable] valid
  obtain h1 where h1: "chain main_container_editable 0 (snd (new_ElementsSelector heap0)) = (Inr 0, h1)"
    by blast
  with stringify_fixed_order [OF new, of main_container_editable 0 h1]
  have "stringify 0 h1 = fixed_order_nonempty (fragments_of main_container_editable)"
    by blast
  with new valid h1 fo show ?thesis by simp
qed

text \<open>
  The claim as stated fails for \<^verbatim>\<open>id('')\<close>: the id is set, the fixed concatenation
  of the claim is \<open>#\<close>, and \<open>stringify\<close> returns the empty string.
\<close>

theorem empty_id_counterexample:
  "rank_order [(Id, [])] \<and>
   fst (chain [(Id, [])] 0 (snd (new_ElementsSelector heap0))) = Inr 0 \<and>
   stringify 0 (snd (chain [(Id, [])] 0 (snd (new_ElementsSelector heap0)))) = [] \<and>
   fixed_order (fragments_of [(Id, [])]) = ''#''"
  by (simp add: rank_order_def fixed_order_def fragments_of_def no_fragments_def eval_defs)


section \<open>A singleton that holds the empty string\<close>

lemma field_invoke_other:
  assumes "singleton p" and "\<not> same_setter p m"
  shows "field p (objs (snd (invoke m r h)) r) = field p (objs h r)"
proof (cases m)
  case (Setter q v)
  with assms(2) have "p \<noteq> q" by auto
  with field_setter_other [OF assms(1) this, of r v h] Setter show ?thesis
    by (simp add: invoke_setter_snd del: invoke.simps setter.simps)
next
  case (Combine a c b)
  with assms(1) show ?thesis by (cases p) (simp_all add: combine_def upd_obj_def)
next
  case Stringify
  then show ?thesis by simp
qed

lemma field_attempts_other:
  assumes "singleton p" and "\<forall>m \<in> set ms. \<not> same_setter p m"
  shows "field p (objs (attempts ms r h) r) = field p (objs h r)"
  using assms(2)
proof (induction ms arbitrary: h)
  case Nil
  then show ?case by simp
next
  case (Cons m ms)
  then show ?case
    by (simp add: field_invoke_other [OF assms(1)] del: invoke.simps)
qed

text \<open>
  C8, as amended. After a singleton setter (element, id, pseudoElement) was called
  with the empty string, a second call of the same setter does not raise
  \<open>DuplicateFragment\<close>, because the occupied check tests the truthiness of the stored
  value. It overwrites the stored value when no setter of a higher rank was used on
  the builder in between, in particular when it directly follows the first call;
  otherwise it raises \<open>OrderViolation\<close> and leaves the store as it was. The same holds
  on every builder that holds the empty string in that field.
\<close>

theorem empty_value_overwritten:
  assumes "singleton p"
  shows "(setter p this [] h = (Inr r, h1) \<longrightarrow>
            fst (setter p r v h1) = Inr r \<and>
            field p (objs (snd (setter p r v h1)) r) = Some v) \<and>
         (setter p this [] h = (Inr r, h1) \<longrightarrow> (\<forall>m \<in> set ms. \<not> same_setter p m) \<longrightarrow>
            setter p r v (attempts ms r h1) =
              (if parts p < highest ms then (Inl OrderViolation, attempts ms r h1)
               else (Inr r,
                     upd_obj r (\<lambda>s. field_update p (Some v) (s\<lparr>currOrder := parts p\<rparr>))
                       (attempts ms r h1)))) \<and>
         (field p (objs h this) = Some [] \<longrightarrow>
            fst (setter p this v h) \<noteq> Inl DuplicateFragment \<and>
            setter p this v h =
              (if parts p < currOrder (objs h this) then (Inl OrderViolation, h)
               else (Inr this,
                     upd_obj this (\<lambda>s. field_update p (Some v) (s\<lparr>currOrder := parts p\<rparr>)) h)))"
proof -
  have first: "r = this \<and> currOrder (objs h1 r) = parts p \<and> field p (objs h1 r) = Some []"
    if "setter p this [] h = (Inr r, h1)"
    using that assms
    by (auto simp: singleton_setter field_field_update upd_obj_def
             simp del: setter.simps split: if_splits)
  have general: "fst (setter p this v h) \<noteq> Inl DuplicateFragment \<and>
      setter p this v h =
        (if parts p < currOrder (objs h this) then (Inl OrderViolation, h)
         else (Inr this,
               upd_obj this (\<lambda>s. field_update p (Some v) (s\<lparr>currOrder := parts p\<rparr>)) h))"
    if "field p (objs h this) = Some []" for this h
    using that assms by (simp add: singleton_setter errors_differ del: setter.simps)
  have direct: "fst (setter p r v h1) = Inr r \<and> field p (objs (snd (setter p r v h1)) r) = Some v"
    if "setter p this [] h = (Inr r, h1)"
  proof -
    from first [OF that] have c: "currOrder (objs h1 r) = parts p"
      and f: "field p (objs h1 r) = Some []" by blast+
    from general [OF f] c
    have "setter p r v h1 =
        (Inr r, upd_obj r (\<lambda>s. field_update p (Some v) (s\<lparr>currOrder := parts p\<rparr>)) h1)"
      by (simp del: setter.simps)
    then show ?thesis
      by (simp add: upd_obj_def field_field_update assms del: setter.simps)
  qed
  have later: "setter p r v (attempts ms r h1) =
      (if parts p < highest ms then (Inl OrderViolation, attempts ms r h1)
       else (Inr r,
             upd_obj r (\<lambda>s. field_update p (Some v) (s\<lparr>currOrder := parts p\<rparr>))
               (attempts ms r h1)))"
    if "setter p this [] h = (Inr r, h1)" and "\<forall>m \<in> set ms. \<not> same_setter p m"
  proof -
    from first [OF that(1)] have c: "currOrder (objs h1 r) = parts p"
      and f: "field p (objs h1 r) = Some []" by blast+
    have "field p (objs (attempts ms r h1) r) = Some []"
      using field_attempts_other [OF assms that(2), of r h1] f by simp
    moreover have "parts p < currOrder (objs (attempts ms r h1) r) \<longleftrightarrow> parts p < highest ms"
      by (simp add: currOrder_attempts c max_def)
    ultimately show ?thesis
      using general [of "attempts ms r h1" r] by (simp del: setter.simps)
  qed
  from direct later general show ?thesis by blast
qed

theorem empty_value_overwritten_witness:
  "singleton Element \<and>
   setter Element 0 [] (snd (new_ElementsSelector heap0)) = (Inr 0, empty_element) \<and>
   list_all (\<lambda>m. \<not> same_setter Element m) then_id \<and>
   field Element (objs empty_element 0) = Some [] \<and>
   fst (setter Element 0 ''a'' empty_element) = Inr 0 \<and>
   field Element (objs (snd (setter Element 0 ''a'' empty_element)) 0) = Some ''a'' \<and>
   fst (setter Element 0 ''a'' (attempts then_id 0 empty_element)) = Inl OrderViolation"
proof -
  have s: "singleton Element" by simp
  have first: "setter Element 0 [] (snd (new_ElementsSelector heap0)) = (Inr 0, empty_element)"
    by (simp add: empty_element_def eval_defs)
  have stored: "field Element (objs empty_element 0) = Some []"
    by (simp add: empty_element_def eval_defs)
  have others: "\<forall>m \<in> set then_id. \<not> same_setter Element m"
    and higher: "parts Element < highest then_id"
    by (simp_all add: then_id_def)
  note t = empty_value_overwritten [OF s, of 0 "snd (new_ElementsSelector heap0)" 0 empty_element
      "''a''" then_id]
  from t first have "fst (setter Element 0 ''a'' empty_element) = Inr 0"
    and "field Element (objs (snd (setter Element 0 ''a'' empty_element)) 0) = Some ''a''"
    by blast+
  moreover from t first others higher
  have "fst (setter Element 0 ''a'' (attempts then_id 0 empty_element)) = Inl OrderViolation"
    by simp
  ultimately show ?thesis using s first stored others by (simp add: list_all_iff)
qed

text \<open>
  The claim as stated fails for \<^verbatim>\<open>element('').id('x').element('a')\<close>: the second call
  of \<^verbatim>\<open>element\<close> raises the ordering error, and the element stays the empty string.
\<close>

theorem higher_rank_between_counterexample:
  "fst (element 0 [] (snd (new_ElementsSelector heap0))) = Inr 0 \<and>
   snd (id_m 0 ''x'' (snd (element 0 [] (snd (new_ElementsSelector heap0))))) = empty_x \<and>
   fst (element 0 ''a'' empty_x) = Inl OrderViolation \<and>
   myElement (objs (snd (element 0 ''a'' empty_x)) 0) = Some []"
  by (simp add: empty_x_def empty_element_def eval_defs)

end
